theory Spec2Isabelle
  imports Main "HOL-Library.Sublist"
begin

section \<open>Strings and the string primitives of the source\<close>

text \<open>
  A source string is modelled as a \<open>string\<close> (a list of characters), one list element per
  code unit. The primitives below are the JavaScript string methods that
  \<open>src/ts/index.ts\<close> calls, restricted to the way it calls them: \<open>indexOf\<close> and
  \<open>split\<close> are only ever given a one-character needle, \<open>slice\<close> only non-negative
  indices, and \<open>replace\<close> only a global regular expression that matches one fixed
  literal.
\<close>

definition ESC :: char where
  "ESC = CHR 0x1B"

definition OSC633_START :: string where
  "OSC633_START = ESC # '']633;''"

definition ST :: char where
  "ST = CHR 0x07"

text \<open>\<open>s.indexOf(c)\<close>: the first index of \<open>c\<close>; the source's \<open>-1\<close> is \<open>None\<close>.\<close>

fun indexOf :: "string \<Rightarrow> char \<Rightarrow> nat option" where
  "indexOf [] c = None"
| "indexOf (x # xs) c = (if x = c then Some 0 else map_option Suc (indexOf xs c))"

text \<open>\<open>s.indexOf(c, position)\<close>: the first index of \<open>c\<close> at or after \<open>position\<close>.\<close>

definition indexOf_from :: "string \<Rightarrow> char \<Rightarrow> nat \<Rightarrow> nat option" where
  "indexOf_from s c position = map_option (\<lambda>i. i + position) (indexOf (drop position s) c)"

text \<open>\<open>s.slice(start, end)\<close> for non-negative indices (empty when \<open>end \<le> start\<close>).\<close>

definition slice :: "string \<Rightarrow> nat \<Rightarrow> nat \<Rightarrow> string" where
  "slice s start end' = take (end' - start) (drop start s)"

text \<open>\<open>s.startsWith(p)\<close>.\<close>

definition startsWith :: "string \<Rightarrow> string \<Rightarrow> bool" where
  "startsWith s p = (take (length p) s = p)"

text \<open>\<open>s.split(sep)\<close> for a one-character separator: never the empty list.\<close>

fun split :: "char \<Rightarrow> string \<Rightarrow> string list" where
  "split sep [] = [[]]"
| "split sep (c # cs) =
     (if c = sep then [] # split sep cs
      else (case split sep cs of [] \<Rightarrow> [[c]] | p # ps \<Rightarrow> (c # p) # ps))"

text \<open>\<open>parts.join(sep)\<close>.\<close>

fun join :: "string \<Rightarrow> string list \<Rightarrow> string" where
  "join sep [] = []"
| "join sep [p] = p"
| "join sep (p # q # ps) = p @ sep @ join sep (q # ps)"

text \<open>\<open>parts[i]\<close>: \<open>undefined\<close> (here \<open>None\<close>) beyond the end of the array.\<close>

definition at :: "'a list \<Rightarrow> nat \<Rightarrow> 'a option" where
  "at xs i = (if i < length xs then Some (xs ! i) else None)"

text \<open>
  \<open>s.replace(/lit/g, rep)\<close> for a non-empty literal \<open>lit\<close>: the matches are found from
  left to right and do not overlap; the replacement text is not scanned again.
\<close>

function replaceAll :: "string \<Rightarrow> string \<Rightarrow> string \<Rightarrow> string" where
  "replaceAll lit rep [] = []"
| "replaceAll lit rep (c # cs) =
     (if lit \<noteq> [] \<and> prefix lit (c # cs)
      then rep @ replaceAll lit rep (drop (length lit) (c # cs))
      else c # replaceAll lit rep cs)"
  by pat_completeness auto
termination
  by (relation "measure (\<lambda>(lit, rep, s). length s)") (auto simp: neq_Nil_conv)

section \<open>Events\<close>

datatype entry =
    PromptStart
  | PromptEnd
  | CommandStart
  | CommandEnd "string option"
  | CommandLine string "string option"
  | PropertyUpdate string string
  | Output string
  | Invalid string string "string list" string

text \<open>
  The fields of \<open>Invalid\<close> are, in this order, \<open>sequence\<close>, \<open>oscType\<close>, \<open>parts\<close> and
  the \<open>message\<close> of the error. \<open>new_Invalid\<close> is the constructor of the class.
\<close>

definition new_Invalid :: "string list \<Rightarrow> string \<Rightarrow> entry" where
  "new_Invalid parts message =
     Invalid (OSC633_START @ join '';'' parts @ [ST])
             (case at parts 0 of None \<Rightarrow> [] | Some p \<Rightarrow> p)
             parts message"

definition createOutput :: "string \<Rightarrow> entry" where
  "createOutput v = Output v"

section \<open>Decoding one sequence\<close>

definition backslash :: char where
  "backslash = CHR 0x5C"

definition newline :: char where
  "newline = CHR 0x0A"

definition unescapeValue :: "string \<Rightarrow> string" where
  "unescapeValue v =
     replaceAll [backslash, backslash] [backslash]
       (replaceAll (backslash # ''x0a'') [newline]
         (replaceAll (backslash # ''x3b'') '';'' v))"

definition parseCommandEnd :: "string list \<Rightarrow> entry" where
  "parseCommandEnd parts = CommandEnd (at parts 1)"

definition parseCommandLine :: "string list \<Rightarrow> entry" where
  "parseCommandLine parts =
     (case at parts 1 of
        None \<Rightarrow> new_Invalid parts ''Missing command parameter''
      | Some command \<Rightarrow> CommandLine (unescapeValue command) (at parts 2))"

definition parsePropertyUpdate :: "string list \<Rightarrow> entry" where
  "parsePropertyUpdate parts =
     (case at parts 1 of
        None \<Rightarrow> new_Invalid parts ''Missing name-value parameter''
      | Some propertyPart \<Rightarrow>
          (case indexOf propertyPart CHR ''='' of
             None \<Rightarrow>
               new_Invalid parts
                 (''Invalid property format: missing '' @ [CHR 0x27, CHR ''='', CHR 0x27])
           | Some equalIndex \<Rightarrow>
               (let name = slice propertyPart 0 equalIndex in
                if name = [] then new_Invalid parts ''Missing property name''
                else PropertyUpdate name
                       (unescapeValue (drop (equalIndex + 1) propertyPart)))))"

definition parseSequence :: "string \<Rightarrow> entry" where
  "parseSequence sequence =
     (let parts = split CHR '';'' sequence in
      case at parts 0 of
        None \<Rightarrow> new_Invalid parts ''Unknown sequence type: undefined''
      | Some ty \<Rightarrow>
          if ty = ''A'' then PromptStart
          else if ty = ''B'' then PromptEnd
          else if ty = ''C'' then CommandStart
          else if ty = ''D'' then parseCommandEnd parts
          else if ty = ''E'' then parseCommandLine parts
          else if ty = ''P'' then parsePropertyUpdate parts
          else new_Invalid parts (''Unknown sequence type: '' @ ty))"

section \<open>The scanner\<close>

definition isPartialOSC633Start :: "string \<Rightarrow> bool" where
  "isPartialOSC633Start str = (str = slice OSC633_START 0 (length str))"

text \<open>
  The \<open>while\<close> loop of \<open>parse\<close> on one state \<open>(buffer, outputBuffer)\<close>: the entries it
  yields and the state it leaves when it stops (its condition fails or it breaks).
\<close>

function parse_loop :: "string \<Rightarrow> string \<Rightarrow> entry list \<times> string \<times> string" where
  "parse_loop buffer outputBuffer =
     (if \<not> length buffer > 0 then ([], buffer, outputBuffer)
      else
        (case indexOf buffer ESC of
           None \<Rightarrow> ([], [], outputBuffer @ buffer)
         | Some escIndex \<Rightarrow>
             (let remaining = drop escIndex buffer in
              if \<not> startsWith remaining OSC633_START then
                (if isPartialOSC633Start remaining then
                   ([], drop escIndex buffer,
                    (if escIndex > 0 then outputBuffer @ slice buffer 0 escIndex
                     else outputBuffer))
                 else
                   parse_loop (drop (escIndex + 1) buffer)
                              (outputBuffer @ slice buffer 0 (escIndex + 1)))
              else
                (case indexOf_from buffer ST escIndex of
                   None \<Rightarrow>
                     ([], drop escIndex buffer,
                      (if escIndex > 0 then outputBuffer @ slice buffer 0 escIndex
                       else outputBuffer))
                 | Some stIndex \<Rightarrow>
                     (let outputBuffer1 =
                            (if escIndex > 0 then outputBuffer @ slice buffer 0 escIndex
                             else outputBuffer);
                          flushed =
                            (if length outputBuffer1 > 0 then [createOutput outputBuffer1] else []);
                          outputBuffer2 = (if length outputBuffer1 > 0 then [] else outputBuffer1);
                          sequence = slice buffer (escIndex + length OSC633_START) stIndex
                      in (case parse_loop (drop (stIndex + 1) buffer) outputBuffer2 of
                            (entries, buffer', outputBuffer') \<Rightarrow>
                              (flushed @ parseSequence sequence # entries,
                               buffer', outputBuffer')))))))"
  by pat_completeness auto
termination
  by (relation "measure (\<lambda>(buffer, outputBuffer). length buffer)") auto

declare parse_loop.simps [simp del]

text \<open>
  The \<open>for await\<close> loop: every chunk is appended to the buffer and the \<open>while\<close> loop runs
  on the result. The state is threaded from chunk to chunk.
\<close>

fun parse_chunks :: "string list \<Rightarrow> string \<Rightarrow> string \<Rightarrow> entry list \<times> string \<times> string" where
  "parse_chunks [] buffer outputBuffer = ([], buffer, outputBuffer)"
| "parse_chunks (chunk # stream) buffer outputBuffer =
     (case parse_loop (buffer @ chunk) outputBuffer of
        (entries, buffer', outputBuffer') \<Rightarrow>
          (case parse_chunks stream buffer' outputBuffer' of
             (entries', buffer'', outputBuffer'') \<Rightarrow>
               (entries @ entries', buffer'', outputBuffer'')))"

text \<open>\<open>parse\<close> on a finite stream of chunks: the entries it yields, in order.\<close>

definition parse :: "string list \<Rightarrow> entry list" where
  "parse stream =
     (case parse_chunks stream [] [] of
        (entries, buffer, outputBuffer) \<Rightarrow>
          entries @
          (if length outputBuffer > 0 \<or> length buffer > 0
           then [createOutput (outputBuffer @ buffer)] else []))"

section \<open>Predicates on events\<close>

fun is_Invalid :: "entry \<Rightarrow> bool" where
  "is_Invalid (Invalid s t p m) = True"
| "is_Invalid _ = False"

fun is_Output :: "entry \<Rightarrow> bool" where
  "is_Output (Output v) = True"
| "is_Output _ = False"

fun outputs_ok :: "entry list \<Rightarrow> bool" where
  "outputs_ok [] = True"
| "outputs_ok [e] = (e \<noteq> Output [])"
| "outputs_ok (e # e' # es) =
     (e \<noteq> Output [] \<and> \<not> (is_Output e \<and> is_Output e') \<and> outputs_ok (e' # es))"

text \<open>
  The entries of a whole run, from the result of the loops: what the loops yielded, then
  the final flush of \<open>parse\<close>.
\<close>

definition finish :: "entry list \<times> string \<times> string \<Rightarrow> entry list" where
  "finish r = (case r of (entries, buffer, outputBuffer) \<Rightarrow>
     entries @ (if outputBuffer @ buffer = [] then [] else [Output (outputBuffer @ buffer)]))"

section \<open>The scanner's segmentation of the input\<close>

text \<open>
  The loop of \<open>parse\<close> once more, recording what it cuts out of the input instead of what
  it yields: \<open>Text v\<close> where the source yields \<open>createOutput(v)\<close> and \<open>Sequence body\<close>
  where it yields \<open>parseSequence(body)\<close>. Nothing else differs from \<open>parse_loop\<close>,
  \<open>parse_chunks\<close> and \<open>parse\<close>.
\<close>

datatype token = Text string | Sequence string

function scan_loop :: "string \<Rightarrow> string \<Rightarrow> token list \<times> string \<times> string" where
  "scan_loop buffer outputBuffer =
     (if \<not> length buffer > 0 then ([], buffer, outputBuffer)
      else
        (case indexOf buffer ESC of
           None \<Rightarrow> ([], [], outputBuffer @ buffer)
         | Some escIndex \<Rightarrow>
             (let remaining = drop escIndex buffer in
              if \<not> startsWith remaining OSC633_START then
                (if isPartialOSC633Start remaining then
                   ([], drop escIndex buffer,
                    (if escIndex > 0 then outputBuffer @ slice buffer 0 escIndex
                     else outputBuffer))
                 else
                   scan_loop (drop (escIndex + 1) buffer)
                             (outputBuffer @ slice buffer 0 (escIndex + 1)))
              else
                (case indexOf_from buffer ST escIndex of
                   None \<Rightarrow>
                     ([], drop escIndex buffer,
                      (if escIndex > 0 then outputBuffer @ slice buffer 0 escIndex
                       else outputBuffer))
                 | Some stIndex \<Rightarrow>
                     (let outputBuffer1 =
                            (if escIndex > 0 then outputBuffer @ slice buffer 0 escIndex
                             else outputBuffer);
                          flushed =
                            (if length outputBuffer1 > 0 then [Text outputBuffer1] else []);
                          outputBuffer2 = (if length outputBuffer1 > 0 then [] else outputBuffer1);
                          sequence = slice buffer (escIndex + length OSC633_START) stIndex
                      in (case scan_loop (drop (stIndex + 1) buffer) outputBuffer2 of
                            (tokens, buffer', outputBuffer') \<Rightarrow>
                              (flushed @ Sequence sequence # tokens,
                               buffer', outputBuffer')))))))"
  by pat_completeness auto
termination
  by (relation "measure (\<lambda>(buffer, outputBuffer). length buffer)") auto

declare scan_loop.simps [simp del]

fun scan_chunks :: "string list \<Rightarrow> string \<Rightarrow> string \<Rightarrow> token list \<times> string \<times> string" where
  "scan_chunks [] buffer outputBuffer = ([], buffer, outputBuffer)"
| "scan_chunks (chunk # stream) buffer outputBuffer =
     (case scan_loop (buffer @ chunk) outputBuffer of
        (tokens, buffer', outputBuffer') \<Rightarrow>
          (case scan_chunks stream buffer' outputBuffer' of
             (tokens', buffer'', outputBuffer'') \<Rightarrow>
               (tokens @ tokens', buffer'', outputBuffer'')))"

definition scan :: "string list \<Rightarrow> token list" where
  "scan stream =
     (case scan_chunks stream [] [] of
        (tokens, buffer, outputBuffer) \<Rightarrow>
          tokens @
          (if length outputBuffer > 0 \<or> length buffer > 0
           then [Text (outputBuffer @ buffer)] else []))"

text \<open>The entry that the source yields for a token, and the raw fields of a sequence.\<close>

fun entry_of :: "token \<Rightarrow> entry" where
  "entry_of (Text v) = createOutput v"
| "entry_of (Sequence body) = parseSequence body"

fun fields :: "token \<Rightarrow> string list" where
  "fields (Text v) = []"
| "fields (Sequence body) = split CHR '';'' body"

text \<open>
  The wire text of an entry together with the token it was cut from: the value of an
  \<open>Output\<close>, the \<open>sequence\<close> field of an \<open>Invalid\<close>, and for every other entry the
  family prefix, the raw fields rejoined with \<open>;\<close>, and the terminator.
\<close>

definition wire_text :: "token \<Rightarrow> string" where
  "wire_text t =
     (case entry_of t of
        Output v \<Rightarrow> v
      | Invalid sequence oscType parts message \<Rightarrow> sequence
      | _ \<Rightarrow> OSC633_START @ join '';'' (fields t) @ [ST])"

text \<open>
  The wire text rebuilt from an entry alone: the same, but with the fields that the entry
  carries (its type and its decoded payload) in place of the raw fields.
\<close>

fun event_fields :: "entry \<Rightarrow> string list" where
  "event_fields PromptStart = [''A'']"
| "event_fields PromptEnd = [''B'']"
| "event_fields CommandStart = [''C'']"
| "event_fields (CommandEnd None) = [''D'']"
| "event_fields (CommandEnd (Some exitCode)) = [''D'', exitCode]"
| "event_fields (CommandLine command None) = [''E'', command]"
| "event_fields (CommandLine command (Some nonce)) = [''E'', command, nonce]"
| "event_fields (PropertyUpdate name v) = [''P'', name @ ''='' @ v]"
| "event_fields (Output v) = []"
| "event_fields (Invalid sequence oscType parts message) = parts"

definition reconstructed :: "entry \<Rightarrow> string" where
  "reconstructed e =
     (case e of
        Output v \<Rightarrow> v
      | Invalid sequence oscType parts message \<Rightarrow> sequence
      | _ \<Rightarrow> OSC633_START @ join '';'' (event_fields e) @ [ST])"

section \<open>Unescaping on the original text\<close>

text \<open>
  The decoding that the specification words describe, to compare \<open>unescapeValue\<close> with:
  every marker is recognised on the original text, in one pass from left to right, so that
  no character belongs to two markers and no text that a substitution produced is looked
  at again.
\<close>

function unescape_independent :: "string \<Rightarrow> string" where
  "unescape_independent [] = []"
| "unescape_independent (c # cs) =
     (if prefix (backslash # ''x3b'') (c # cs)
      then CHR '';'' # unescape_independent (drop 4 (c # cs))
      else if prefix (backslash # ''x0a'') (c # cs)
      then newline # unescape_independent (drop 4 (c # cs))
      else if prefix [backslash, backslash] (c # cs)
      then backslash # unescape_independent (drop 2 (c # cs))
      else c # unescape_independent cs)"
  by pat_completeness auto
termination
  by (relation "measure length") auto

text \<open>
  The escaping that the README prescribes for whoever writes a value into an \<open>E\<close> or \<open>P\<close>
  sequence: a semicolon becomes the semicolon marker, a newline the newline marker, a
  backslash a doubled backslash, and no other character is escaped.
\<close>

fun escape :: "string \<Rightarrow> string" where
  "escape [] = []"
| "escape (c # cs) =
     (if c = CHR '';'' then backslash # ''x3b''
      else if c = newline then backslash # ''x0a''
      else if c = backslash then [backslash, backslash]
      else [c]) @ escape cs"

text \<open>
  \<open>no_clash v\<close>: along that pass, no doubled backslash is directly followed by \<open>x3b\<close> or
  \<open>x0a\<close>.
\<close>

function no_clash :: "string \<Rightarrow> bool" where
  "no_clash [] = True"
| "no_clash (c # cs) =
     (if prefix (backslash # ''x3b'') (c # cs) then no_clash (drop 4 (c # cs))
      else if prefix (backslash # ''x0a'') (c # cs) then no_clash (drop 4 (c # cs))
      else if prefix [backslash, backslash] (c # cs)
      then \<not> prefix ''x3b'' (drop 2 (c # cs)) \<and> \<not> prefix ''x0a'' (drop 2 (c # cs))
           \<and> no_clash (drop 2 (c # cs))
      else no_clash cs)"
  by pat_completeness auto
termination
  by (relation "measure length") auto

section \<open>Facts about the string primitives\<close>

lemma split_not_Nil: "split sep s \<noteq> []"
  by (induction s) (auto split: list.splits)

lemma join_Cons: "ps \<noteq> [] \<Longrightarrow> join [sep] (p # ps) = p @ sep # join [sep] ps"
  by (cases ps) auto

lemma join_Cons_Cons: "join [sep] ((a # p) # ps) = a # join [sep] (p # ps)"
  by (cases ps) auto

lemma join_split: "join [sep] (split sep s) = s"
  by (induction s) (auto simp: split_not_Nil join_Cons join_Cons_Cons split: list.splits)

lemma indexOf_None: "indexOf s c = None \<longleftrightarrow> c \<notin> set s"
  by (induction s) auto


lemma indexOf_Some_nth:
  "indexOf s c = Some i \<Longrightarrow> i < length s \<and> s ! i = c \<and> c \<notin> set (take i s)"
  by (induction s arbitrary: i) (auto split: if_splits)

lemma at_simps: "at (x # xs) 0 = Some x" "at [] n = None" "at (x # xs) (Suc n) = at xs n"
  by (auto simp: at_def)

lemma at_1: "at (x # xs) 1 = at xs 0"
  by (auto simp: at_def)

lemma at_2: "at (x # y # xs) 2 = at xs 0"
  by (auto simp: at_def)

section \<open>Decoding\<close>

text \<open>
  C9. With the first field of the body as the type identifier: \<open>A\<close>, \<open>B\<close> and \<open>C\<close>
  decode to the event without payload whatever other fields follow; \<open>D\<close> decodes to a
  command end whose exit code is the second field as it stands, or is absent when there
  is no second field; every identifier other than \<open>A\<close>, \<open>B\<close>, \<open>C\<close>, \<open>D\<close>, \<open>E\<close>,
  \<open>P\<close> (the empty one too) decodes to \<open>Invalid\<close> with the reason
  \<open>Unknown sequence type: \<close> followed by the identifier.
\<close>

theorem decode_ABCD:
  assumes "split CHR '';'' body = ty # rest"
  shows "(ty = ''A'' \<longrightarrow> parseSequence body = PromptStart)
       \<and> (ty = ''B'' \<longrightarrow> parseSequence body = PromptEnd)
       \<and> (ty = ''C'' \<longrightarrow> parseSequence body = CommandStart)
       \<and> (ty = ''D'' \<longrightarrow> parseSequence body =
             CommandEnd (case rest of [] \<Rightarrow> None | exitCode # _ \<Rightarrow> Some exitCode))
       \<and> (ty \<notin> {''A'', ''B'', ''C'', ''D'', ''E'', ''P''} \<longrightarrow> parseSequence body =
             Invalid (OSC633_START @ body @ [ST]) ty (ty # rest)
               (''Unknown sequence type: '' @ ty))"
proof -
  have j: "join '';'' (ty # rest) = body"
    using join_split [of "CHR '';''" body] assms by simp
  show ?thesis
    using assms j
    by (cases rest) (simp_all add: parseSequence_def parseCommandEnd_def new_Invalid_def at_simps at_1)
qed

theorem decode_ABCD_witness:
  "parseSequence ''A;extra;parts'' = PromptStart
   \<and> parseSequence ''B;'' = PromptEnd
   \<and> parseSequence ''C;1;2'' = CommandStart
   \<and> parseSequence ''D'' = CommandEnd None
   \<and> parseSequence ''D;0;x'' = CommandEnd (Some ''0'')
   \<and> parseSequence ''X;foo'' =
        Invalid (OSC633_START @ ''X;foo'' @ [ST]) ''X'' [''X'', ''foo''] ''Unknown sequence type: X''
   \<and> parseSequence [] =
        Invalid (OSC633_START @ [ST]) [] [[]] ''Unknown sequence type: ''"
  using decode_ABCD [of "''A;extra;parts''" "''A''" "[''extra'', ''parts'']"]
        decode_ABCD [of "''B;''" "''B''" "[[]]"]
        decode_ABCD [of "''C;1;2''" "''C''" "[''1'', ''2'']"]
        decode_ABCD [of "''D''" "''D''" "[]"]
        decode_ABCD [of "''D;0;x''" "''D''" "[''0'', ''x'']"]
        decode_ABCD [of "''X;foo''" "''X''" "[''foo'']"]
        decode_ABCD [of "[]" "[]" "[]"]
  by simp





section \<open>The scanning loop, step by step\<close>

lemma startsWith_prefix: "startsWith s p \<longleftrightarrow> prefix p s"
  unfolding startsWith_def prefix_def
  by (metis append_eq_conv_conj append_take_drop_id)

lemma isPartial_prefix: "isPartialOSC633Start str \<longleftrightarrow> prefix str OSC633_START"
  unfolding isPartialOSC633Start_def slice_def prefix_def
  by (metis append_eq_conv_conj append_take_drop_id diff_zero drop0)

lemma indexOf_append: "c \<notin> set p \<Longrightarrow> indexOf (p @ c # t) c = Some (length p)"
  by (induction p) auto

lemma indexOf_from_None: "indexOf_from s c n = None \<longleftrightarrow> c \<notin> set (drop n s)"
  by (simp add: indexOf_from_def indexOf_None)

lemma indexOf_from_append:
  "c \<notin> set q \<Longrightarrow> indexOf_from (p @ q @ c # t) c (length p) = Some (length p + length q)"
  by (simp add: indexOf_from_def indexOf_append add.commute)

lemma slice_0: "slice s 0 n = take n s"
  by (simp add: slice_def)

lemma length_OSC [simp]: "length OSC633_START = 6"
  by (simp add: OSC633_START_def)

lemma ST_notin_OSC [simp]: "ST \<notin> set OSC633_START"
  by (simp add: OSC633_START_def ST_def ESC_def)

lemma hd_OSC: "OSC633_START = ESC # '']633;''"
  by (simp add: OSC633_START_def)

text \<open>
  One step of the loop for each shape of the buffer: no introducer at all; literal text
  \<open>p\<close> and then an introducer that starts a proper prefix of the family prefix, a stray
  introducer, an unterminated sequence, or a complete sequence.
\<close>

lemma loop_Nil: "parse_loop [] out = ([], [], out)"
  by (simp add: parse_loop.simps)

lemma loop_text: "ESC \<notin> set b \<Longrightarrow> parse_loop b out = ([], [], out @ b)"
  using indexOf_None [of b ESC] by (cases "b = []") (simp_all add: parse_loop.simps)

lemma loop_partial:
  assumes "ESC \<notin> set p" "\<not> prefix OSC633_START (ESC # t)" "prefix (ESC # t) OSC633_START"
  shows "parse_loop (p @ ESC # t) out = ([], ESC # t, out @ p)"
  using assms indexOf_append [of ESC p t]
  by (subst parse_loop.simps) (simp add: startsWith_prefix isPartial_prefix slice_0 Let_def)

lemma loop_stray:
  assumes "ESC \<notin> set p" "\<not> prefix OSC633_START (ESC # t)" "\<not> prefix (ESC # t) OSC633_START"
  shows "parse_loop (p @ ESC # t) out = parse_loop t (out @ p @ [ESC])"
  using assms indexOf_append [of ESC p t]
  by (subst parse_loop.simps) (simp add: startsWith_prefix isPartial_prefix slice_0 Let_def)

lemma loop_open:
  assumes "ESC \<notin> set p" "ST \<notin> set body"
  shows "parse_loop (p @ OSC633_START @ body) out = ([], OSC633_START @ body, out @ p)"
proof -
  have i: "indexOf (p @ OSC633_START @ body) ESC = Some (length p)"
    using indexOf_append [of ESC p "'']633;'' @ body"] assms by (simp add: hd_OSC)
  have n: "indexOf_from (p @ OSC633_START @ body) ST (length p) = None"
    using assms by (simp add: indexOf_from_None)
  have s: "startsWith (drop (length p) (p @ OSC633_START @ body)) OSC633_START"
    by (simp add: startsWith_prefix)
  show ?thesis
    apply (subst parse_loop.simps)
    apply (simp only: i n s option.case Let_def)
    apply (simp add: slice_0)
    done
qed

lemma loop_sequence:
  assumes "ESC \<notin> set p" "ST \<notin> set body"
  shows "parse_loop (p @ OSC633_START @ body @ ST # rest) out =
           (case parse_loop rest [] of
              (entries, buffer', outputBuffer') \<Rightarrow>
                ((if out @ p \<noteq> [] then [Output (out @ p)] else []) @
                   parseSequence body # entries, buffer', outputBuffer'))"
proof -
  let ?b = "p @ OSC633_START @ body @ ST # rest"
  have i: "indexOf ?b ESC = Some (length p)"
    using indexOf_append [of ESC p "'']633;'' @ body @ ST # rest"] assms by (simp add: hd_OSC)
  have n: "indexOf_from ?b ST (length p) = Some (length p + (6 + length body))"
    using indexOf_from_append [of ST "OSC633_START @ body" p rest] assms by simp
  have s: "startsWith (drop (length p) ?b) OSC633_START"
    by (simp add: startsWith_prefix)
  have q: "slice ?b (length p + length OSC633_START) (length p + (6 + length body)) = body"
    by (simp add: slice_def)
  have d: "drop (length p + (6 + length body) + 1) ?b = rest"
    by simp
  have o: "(if 0 < length p then out @ slice ?b 0 (length p) else out) = out @ p"
    by (simp add: slice_0)
  show ?thesis
    apply (subst parse_loop.simps)
    apply (simp only: i n s q d o option.case Let_def createOutput_def)
    apply (simp split: prod.splits)
    done
qed

lemma buffer_cases:
  obtains
    (plain) "ESC \<notin> set b"
  | (partial) p t where "b = p @ ESC # t" "ESC \<notin> set p"
      "\<not> prefix OSC633_START (ESC # t)" "prefix (ESC # t) OSC633_START"
  | (stray) p t where "b = p @ ESC # t" "ESC \<notin> set p"
      "\<not> prefix OSC633_START (ESC # t)" "\<not> prefix (ESC # t) OSC633_START"
  | (pending) p body where "b = p @ OSC633_START @ body" "ESC \<notin> set p" "ST \<notin> set body"
  | (sequence) p body rest where "b = p @ OSC633_START @ body @ ST # rest" "ESC \<notin> set p"
      "ST \<notin> set body"
proof (cases "ESC \<in> set b")
  case False
  then show ?thesis by (rule plain)
next
  case True
  then obtain p t where b: "b = p @ ESC # t" "ESC \<notin> set p"
    by (meson split_list_first)
  show ?thesis
  proof (cases "prefix OSC633_START (ESC # t)")
    case False
    with b show ?thesis
      by (cases "prefix (ESC # t) OSC633_START") (auto intro: partial stray)
  next
    case True
    then obtain body' where t: "ESC # t = OSC633_START @ body'"
      by (auto simp: prefix_def)
    show ?thesis
    proof (cases "ST \<in> set body'")
      case False
      with b t show ?thesis by (auto intro: pending)
    next
      case True
      then obtain body rest where "body' = body @ ST # rest" "ST \<notin> set body"
        by (meson split_list_first)
      with b t show ?thesis by (auto intro: sequence)
    qed
  qed
qed

lemma loop_skip_text:
  assumes "ESC \<notin> set p"
  shows "parse_loop (p @ r) out = parse_loop r (out @ p)"
proof (cases r rule: buffer_cases)
  case plain
  with assms show ?thesis by (simp add: loop_text)
next
  case (partial q t)
  with assms show ?thesis
    using loop_partial [of "p @ q" t out] loop_partial [of q t "out @ p"] by simp
next
  case (stray q t)
  with assms show ?thesis
    using loop_stray [of "p @ q" t out] loop_stray [of q t "out @ p"] by simp
next
  case (pending q body)
  with assms show ?thesis
    using loop_open [of "p @ q" body out] loop_open [of q body "out @ p"] by simp
next
  case (sequence q body rest)
  with assms show ?thesis
    using loop_sequence [of "p @ q" body rest out] loop_sequence [of q body rest "out @ p"] by simp
qed

lemma incomparable_append:
  assumes "\<not> prefix a b" "\<not> prefix b a"
  shows "\<not> prefix a (b @ c) \<and> \<not> prefix (b @ c) a"
  using assms by (auto simp: prefix_append dest: append_prefixD)

text \<open>
  The loop on \<open>b @ c\<close> is the loop on \<open>b\<close>, followed by the loop on what it left pending
  with \<open>c\<close> appended.
\<close>

lemma loop_append:
  "parse_loop (b @ c) out =
     (case parse_loop b out of
        (entries, buffer', outputBuffer') \<Rightarrow>
          (case parse_loop (buffer' @ c) outputBuffer' of
             (entries', buffer'', outputBuffer'') \<Rightarrow>
               (entries @ entries', buffer'', outputBuffer'')))"
proof (induction b arbitrary: out rule: length_induct)
  case (1 b)
  show ?case
  proof (cases b rule: buffer_cases)
    case plain
    then show ?thesis
      by (simp add: loop_text loop_skip_text split: prod.splits)
  next
    case (partial p t)
    then show ?thesis
      using loop_skip_text [of p "ESC # t @ c" out]
      by (simp add: loop_partial split: prod.splits)
  next
    case (stray p t)
    then have "parse_loop (b @ c) out = parse_loop (t @ c) (out @ p @ [ESC])"
      using loop_stray [of p "t @ c" out] incomparable_append [of OSC633_START "ESC # t" c]
      by simp
    moreover have "parse_loop b out = parse_loop t (out @ p @ [ESC])"
      using stray by (simp add: loop_stray)
    moreover have "length t < length b"
      using stray by simp
    ultimately show ?thesis
      using 1 by simp
  next
    case (pending p body)
    then show ?thesis
      using loop_skip_text [of p "OSC633_START @ body @ c" out]
      by (simp add: loop_open split: prod.splits)
  next
    case (sequence p body rest)
    then have "length rest < length b"
      by simp
    then have "parse_loop (rest @ c) [] =
       (case parse_loop rest [] of
        (entries, buffer', outputBuffer') \<Rightarrow>
          (case parse_loop (buffer' @ c) outputBuffer' of
             (entries', buffer'', outputBuffer'') \<Rightarrow>
               (entries @ entries', buffer'', outputBuffer'')))"
      using 1 by blast
    then show ?thesis
      using sequence loop_sequence [of p body "rest @ c" out] loop_sequence [of p body rest out]
      by (simp split: prod.splits)
  qed
qed

section \<open>Chunks\<close>

lemma parse_finish: "parse stream = finish (parse_chunks stream [] [])"
  by (auto simp: parse_def finish_def createOutput_def split: prod.splits)

lemma chunks_loop:
  "stream \<noteq> [] \<Longrightarrow> parse_chunks stream b out = parse_loop (b @ concat stream) out"
proof (induction stream arbitrary: b out rule: induct_list012)
  case 1
  then show ?case by simp
next
  case (2 c)
  then show ?case by (simp split: prod.splits)
next
  case (3 c c' stream)
  have "parse_chunks (c # c' # stream) b out =
        (case parse_loop (b @ c) out of
           (entries, buffer', outputBuffer') \<Rightarrow>
             (case parse_loop (buffer' @ concat (c' # stream)) outputBuffer' of
                (entries', buffer'', outputBuffer'') \<Rightarrow>
                  (entries @ entries', buffer'', outputBuffer'')))"
    using 3(2) [of _ _] by (simp split: prod.splits)
  also have "\<dots> = parse_loop ((b @ c) @ concat (c' # stream)) out"
    by (rule loop_append [symmetric])
  finally show ?case by simp
qed

lemma parse_concat: "parse stream = finish (parse_loop (concat stream) [])"
proof (cases stream)
  case Nil
  then show ?thesis by (simp add: parse_finish loop_Nil)
next
  case (Cons c cs)
  then show ?thesis
    using chunks_loop [of stream "[]" "[]"] by (simp add: parse_finish)
qed

lemma concat_singletons: "concat (map (\<lambda>c. [c]) s) = s"
  by (induction s) auto

text \<open>
  C2. The entries that \<open>parse\<close> yields depend only on the concatenation of the chunks:
  two streams with the same concatenation yield the same entries; in particular every
  stream yields what the single chunk holding all of its text yields, and what the
  stream of its characters, one per chunk, yields.
\<close>

theorem chunk_invariance:
  "(concat stream = concat stream' \<longrightarrow> parse stream = parse stream')
   \<and> parse stream = parse [concat stream]
   \<and> parse stream = parse (map (\<lambda>c. [c]) (concat stream))"
  by (simp add: parse_concat concat_singletons)

theorem chunk_invariance_witness:
  "concat [''before '' @ [ESC], '']633'', '';A'' @ [ST] @ '' after''] =
     concat [''before '', OSC633_START, ''A'', [ST], '' after'']
   \<and> parse [''before '' @ [ESC], '']633'', '';A'' @ [ST] @ '' after''] =
       parse [''before '', OSC633_START, ''A'', [ST], '' after'']
   \<and> parse [''before '' @ [ESC], '']633'', '';A'' @ [ST] @ '' after''] =
       [Output ''before '', PromptStart, Output '' after'']"
proof -
  have c: "concat [''before '' @ [ESC], '']633'', '';A'' @ [ST] @ '' after''] =
     concat [''before '', OSC633_START, ''A'', [ST], '' after'']"
    by (simp add: OSC633_START_def)
  have e: "parse [''before '' @ [ESC], '']633'', '';A'' @ [ST] @ '' after''] =
       [Output ''before '', PromptStart, Output '' after'']"
    by code_simp
  show ?thesis
    using c e chunk_invariance [of "[''before '' @ [ESC], '']633'', '';A'' @ [ST] @ '' after'']"
       "[''before '', OSC633_START, ''A'', [ST], '' after'']"]
    by simp
qed

section \<open>Coalesced output and completion\<close>

lemma parseSequence_not_Output: "\<not> is_Output (parseSequence body)"
  by (simp add: parseSequence_def parseCommandEnd_def parseCommandLine_def
        parsePropertyUpdate_def new_Invalid_def Let_def split: option.splits)

lemma outputs_ok_Cons:
  "outputs_ok (e # es) \<longleftrightarrow>
     e \<noteq> Output [] \<and> (es = [] \<or> \<not> (is_Output e \<and> is_Output (hd es))) \<and> outputs_ok es"
  by (cases es) auto

lemma outputs_ok_butlast: "outputs_ok (es @ [e]) \<Longrightarrow> outputs_ok es"
  by (induction es rule: outputs_ok.induct) auto

lemma loop_no_terminator:
  "ST \<notin> set b \<Longrightarrow> \<exists>b' o'. parse_loop b out = ([], b', o') \<and> o' @ b' = out @ b"
proof (induction b arbitrary: out rule: length_induct)
  case (1 b)
  show ?case
  proof (cases b rule: buffer_cases)
    case plain
    then show ?thesis by (simp add: loop_text)
  next
    case (partial p t)
    then show ?thesis by (simp add: loop_partial)
  next
    case (stray p t)
    then have "ST \<notin> set t" "length t < length b"
      using 1(2) by auto
    then obtain b' o' where "parse_loop t (out @ p @ [ESC]) = ([], b', o')"
        "o' @ b' = (out @ p @ [ESC]) @ t"
      using 1(1) by blast
    then show ?thesis
      using stray by (simp add: loop_stray)
  next
    case (pending p body)
    then show ?thesis by (simp add: loop_open)
  next
    case (sequence p body rest)
    then show ?thesis using 1(2) by simp
  qed
qed

lemma loop_outputs_ok:
  "v \<noteq> [] \<Longrightarrow> outputs_ok (fst (parse_loop b out) @ [Output v])"
proof (induction b arbitrary: out rule: length_induct)
  case (1 b)
  show ?case
  proof (cases b rule: buffer_cases)
    case plain
    then show ?thesis using 1(2) by (simp add: loop_text)
  next
    case (partial p t)
    then show ?thesis using 1(2) by (simp add: loop_partial)
  next
    case (stray p t)
    then have "length t < length b"
      by simp
    then show ?thesis
      using 1 stray by (simp add: loop_stray)
  next
    case (pending p body)
    then show ?thesis using 1(2) by (simp add: loop_open)
  next
    case (sequence p body rest)
    then have "length rest < length b"
      by simp
    then have "outputs_ok (fst (parse_loop rest []) @ [Output v])"
      using 1 by blast
    then show ?thesis
      using sequence parseSequence_not_Output [of body]
      by (cases "parseSequence body")
         (auto simp: loop_sequence outputs_ok_Cons split: prod.splits)
  qed
qed

lemma outputs_coalesced: "outputs_ok (parse stream)"
proof -
  obtain es b out where r: "parse_loop (concat stream) [] = (es, b, out)"
    by (cases "parse_loop (concat stream) []") auto
  have "outputs_ok (es @ [Output ''x''])"
    using loop_outputs_ok [of "''x''" "concat stream" "[]"] r by simp
  moreover have "out @ b \<noteq> [] \<Longrightarrow> outputs_ok (es @ [Output (out @ b)])"
    using loop_outputs_ok [of "out @ b" "concat stream" "[]"] r by simp
  ultimately show ?thesis
    using outputs_ok_butlast [of es "Output ''x''"]
    by (auto simp: parse_concat r finish_def)
qed

lemma loop_residual:
  "parse_loop b out = (es, b', o') \<Longrightarrow>
     ST \<notin> set b' \<and>
     (b' = [] \<or> (\<not> prefix OSC633_START b' \<and> prefix b' OSC633_START) \<or> prefix OSC633_START b')"
proof (induction b arbitrary: out es rule: length_induct)
  case (1 b)
  show ?case
  proof (cases b rule: buffer_cases)
    case plain
    then show ?thesis using 1(2) by (simp add: loop_text)
  next
    case (partial p t)
    then have "b' = ESC # t"
      using 1(2) by (simp add: loop_partial)
    moreover have "ST \<notin> set (ESC # t)"
      using partial(4) set_mono_prefix [of "ESC # t" OSC633_START] ST_notin_OSC by blast
    ultimately show ?thesis
      using partial by simp
  next
    case (stray p t)
    then have "length t < length b" "parse_loop t (out @ p @ [ESC]) = (es, b', o')"
      using 1(2) by (simp_all add: loop_stray)
    then show ?thesis
      using 1(1) by blast
  next
    case (pending p body)
    then show ?thesis using 1(2) by (auto simp: loop_open)
  next
    case (sequence p body rest)
    obtain es2 where "parse_loop rest [] = (es2, b', o')"
      using 1(2) sequence by (auto simp: loop_sequence split: prod.splits)
    moreover have "length rest < length b"
      using sequence by simp
    ultimately show ?thesis
      using 1(1) by blast
  qed
qed

lemma OSC_not_Nil [simp]: "OSC633_START \<noteq> []"
  by (simp add: OSC633_START_def)

text \<open>
  C6. When the stream is exhausted in the state \<open>(buffer, outputBuffer)\<close>, \<open>parse\<close>
  yields, after the entries of the chunks, one \<open>Output\<close> whose value is
  \<open>outputBuffer @ buffer\<close> if either of the two holds text, and nothing if both are
  empty. An unterminated sequence at the end of the input (the family prefix and a body
  without terminator) is part of the value of that final \<open>Output\<close>: the input before it
  yields the entries of its own scan, and what that scan left pending is flushed in front
  of the unterminated sequence.
\<close>

theorem completion:
  "(parse_chunks stream [] [] = (entries, buffer, outputBuffer) \<longrightarrow>
      parse stream =
        entries @ (if outputBuffer = [] \<and> buffer = [] then []
                   else [Output (outputBuffer @ buffer)]))
   \<and> (concat stream = before @ OSC633_START @ body \<longrightarrow> ST \<notin> set body \<longrightarrow>
      parse_loop before [] = (entries', buffer', outputBuffer') \<longrightarrow>
      parse stream = entries' @ [Output (outputBuffer' @ buffer' @ OSC633_START @ body)])"
proof (intro conjI impI)
  assume "parse_chunks stream [] [] = (entries, buffer, outputBuffer)"
  then show "parse stream =
        entries @ (if outputBuffer = [] \<and> buffer = [] then []
                   else [Output (outputBuffer @ buffer)])"
    by (simp add: parse_finish finish_def)
next
  assume c: "concat stream = before @ OSC633_START @ body" and st: "ST \<notin> set body"
    and l: "parse_loop before [] = (entries', buffer', outputBuffer')"
  have "ST \<notin> set (buffer' @ OSC633_START @ body)"
    using loop_residual [OF l] st by simp
  then obtain b2 o2 where r: "parse_loop (buffer' @ OSC633_START @ body) outputBuffer' = ([], b2, o2)"
      "o2 @ b2 = outputBuffer' @ buffer' @ OSC633_START @ body"
    using loop_no_terminator [of "buffer' @ OSC633_START @ body" outputBuffer'] by auto
  have p: "parse_loop (concat stream) [] = (entries', b2, o2)"
    using loop_append [of before "OSC633_START @ body" "[]"] l r(1) c by simp
  have "o2 @ b2 \<noteq> []"
    unfolding r(2) by simp
  then have "finish (entries', b2, o2) = entries' @ [Output (o2 @ b2)]"
    by (simp add: finish_def)
  then show "parse stream = entries' @ [Output (outputBuffer' @ buffer' @ OSC633_START @ body)]"
    by (simp add: parse_concat p r(2))
qed

theorem completion_witness:
  "parse_chunks [''ab'', OSC633_START @ ''A'' @ [ST] @ ''cd'', ESC # '']63''] [] [] =
      ([Output ''ab'', PromptStart], ESC # '']63'', ''cd'')
   \<and> parse [''ab'', OSC633_START @ ''A'' @ [ST] @ ''cd'', ESC # '']63''] =
      [Output ''ab'', PromptStart, Output (''cd'' @ ESC # '']63'')]
   \<and> parse_chunks [] [] [] = ([], [], []) \<and> parse [] = []
   \<and> parse_loop (''x'' @ OSC633_START @ ''B'' @ [ST] @ ''y'') [] = ([Output ''x'', PromptEnd], [], ''y'')
   \<and> parse [''x'' @ OSC633_START @ ''B'' @ [ST], ''y'' @ OSC633_START, ''E;ls''] =
      [Output ''x'', PromptEnd, Output (''y'' @ OSC633_START @ ''E;ls'')]"
proof -
  have a: "parse_chunks [''ab'', OSC633_START @ ''A'' @ [ST] @ ''cd'', ESC # '']63''] [] [] =
      ([Output ''ab'', PromptStart], ESC # '']63'', ''cd'')"
    by code_simp
  have b: "parse_chunks [] [] [] = ([], [], [])"
    by simp
  have c: "parse_loop (''x'' @ OSC633_START @ ''B'' @ [ST] @ ''y'') [] = ([Output ''x'', PromptEnd], [], ''y'')"
    by code_simp
  have d: "concat [''x'' @ OSC633_START @ ''B'' @ [ST], ''y'' @ OSC633_START, ''E;ls''] =
     (''x'' @ OSC633_START @ ''B'' @ [ST] @ ''y'') @ OSC633_START @ ''E;ls''"
    by simp
  have e: "ST \<notin> set ''E;ls''"
    by (simp add: ST_def)
  have 1: "parse [''ab'', OSC633_START @ ''A'' @ [ST] @ ''cd'', ESC # '']63''] =
      [Output ''ab'', PromptStart, Output (''cd'' @ ESC # '']63'')]"
    using a completion [where stream = "[''ab'', OSC633_START @ ''A'' @ [ST] @ ''cd'', ESC # '']63'']"
        and entries = "[Output ''ab'', PromptStart]" and buffer = "ESC # '']63''"
        and outputBuffer = "''cd''"]
    by simp
  have 2: "parse [] = []"
    using b completion [where stream = "[]" and entries = "[]" and buffer = "[]"
        and outputBuffer = "[]"]
    by simp
  have 3: "parse [''x'' @ OSC633_START @ ''B'' @ [ST], ''y'' @ OSC633_START, ''E;ls''] =
      [Output ''x'', PromptEnd, Output (''y'' @ OSC633_START @ ''E;ls'')]"
    using c d e completion [where stream = "[''x'' @ OSC633_START @ ''B'' @ [ST], ''y'' @ OSC633_START, ''E;ls'']"
        and before = "''x'' @ OSC633_START @ ''B'' @ [ST] @ ''y''" and body = "''E;ls''"
        and entries' = "[Output ''x'', PromptEnd]" and buffer' = "[]" and outputBuffer' = "''y''"]
    by simp
  show ?thesis
    using a b c 1 2 3 by simp
qed

lemma outputs_ok_nonempty: "outputs_ok es \<Longrightarrow> Output [] \<notin> set es"
  by (induction es rule: outputs_ok.induct) auto

lemma outputs_ok_adjacent:
  "outputs_ok es \<Longrightarrow> Suc i < length es \<Longrightarrow> \<not> (is_Output (es ! i) \<and> is_Output (es ! Suc i))"
proof (induction es arbitrary: i rule: outputs_ok.induct)
  case (3 e e' es)
  then show ?case by (cases i) auto
qed auto

text \<open>
  C7. No \<open>Output\<close> that \<open>parse\<close> yields has the empty value, and no two consecutive
  entries are both \<open>Output\<close>.
\<close>

theorem outputs_separated:
  "outputs_ok (parse stream)
   \<and> Output [] \<notin> set (parse stream)
   \<and> (\<forall>i. Suc i < length (parse stream) \<longrightarrow>
          \<not> (is_Output (parse stream ! i) \<and> is_Output (parse stream ! Suc i)))"
  using outputs_coalesced [of stream] outputs_ok_nonempty outputs_ok_adjacent by blast

theorem outputs_separated_witness:
  "parse [''a'', ''b'' @ OSC633_START, ''C'' @ [ST] @ [ESC], ''d''] =
     [Output ''ab'', CommandStart, Output (ESC # ''d'')]
   \<and> outputs_ok (parse [''a'', ''b'' @ OSC633_START, ''C'' @ [ST] @ [ESC], ''d''])
   \<and> \<not> (is_Output (parse [''a'', ''b'' @ OSC633_START, ''C'' @ [ST] @ [ESC], ''d''] ! 0)
         \<and> is_Output (parse [''a'', ''b'' @ OSC633_START, ''C'' @ [ST] @ [ESC], ''d''] ! Suc 0))"
proof -
  have e: "parse [''a'', ''b'' @ OSC633_START, ''C'' @ [ST] @ [ESC], ''d''] =
     [Output ''ab'', CommandStart, Output (ESC # ''d'')]"
    by code_simp
  have "Suc 0 < length (parse [''a'', ''b'' @ OSC633_START, ''C'' @ [ST] @ [ESC], ''d''])"
    unfolding e by simp
  then show ?thesis
    using e outputs_separated [of "[''a'', ''b'' @ OSC633_START, ''C'' @ [ST] @ [ESC], ''d'']"]
    by blast
qed

section \<open>Malformed sequences\<close>

lemma ESC_notin_tail: "ESC \<notin> set '']633;''"
  by (simp add: ESC_def)

lemma OSC_prefixes:
  "prefix b OSC633_START \<Longrightarrow> \<not> prefix OSC633_START b \<Longrightarrow>
     b = [] \<or> (\<exists>t. b = ESC # t \<and> t \<in> {[], '']'', '']6'', '']63'', '']633''})"
proof -
  assume p: "prefix b OSC633_START" and n: "\<not> prefix OSC633_START b"
  have "b \<in> set (prefixes OSC633_START)"
    using p by (simp add: in_set_prefixes)
  then show ?thesis
    using n by (auto simp: OSC633_START_def)
qed

lemma loop_after_partial:
  assumes "prefix b OSC633_START" "\<not> prefix OSC633_START b"
  shows "parse_loop (b @ OSC633_START @ r) out = parse_loop (OSC633_START @ r) (out @ b)"
proof (cases "b = []")
  case True
  then show ?thesis by simp
next
  case False
  then obtain t where t: "b = ESC # t" "t \<in> {[], '']'', '']6'', '']63'', '']633''}"
    using OSC_prefixes [OF assms] by blast
  then have e: "ESC \<notin> set t"
    by (auto simp: ESC_def)
  have "\<not> prefix OSC633_START (ESC # t @ OSC633_START @ r)"
       "\<not> prefix (ESC # t @ OSC633_START @ r) OSC633_START"
    using t(2) by (auto simp: OSC633_START_def ESC_def)
  then have "parse_loop ([] @ ESC # t @ OSC633_START @ r) out =
             parse_loop (t @ OSC633_START @ r) (out @ [] @ [ESC])"
    by (intro loop_stray) simp_all
  then show ?thesis
    using loop_skip_text [OF e, of "OSC633_START @ r" "out @ [ESC]"] t(1) by simp
qed

lemma resume_after_sequence:
  assumes "ST \<notin> set body"
    and "parse_loop before [] = (entries, buffer, outputBuffer)"
    and "\<not> prefix OSC633_START buffer"
  shows "finish (parse_loop (before @ OSC633_START @ body @ ST # rest) []) =
           finish (parse_loop before []) @ [parseSequence body] @ finish (parse_loop rest [])"
proof -
  obtain e3 b3 o3 where r: "parse_loop rest [] = (e3, b3, o3)"
    by (cases "parse_loop rest []") auto
  have b: "buffer = [] \<or> (\<not> prefix OSC633_START buffer \<and> prefix buffer OSC633_START)"
    using loop_residual [OF assms(2)] assms(3) by blast
  have "parse_loop (buffer @ OSC633_START @ body @ ST # rest) outputBuffer =
        parse_loop (OSC633_START @ body @ ST # rest) (outputBuffer @ buffer)"
    using b loop_after_partial [of buffer "body @ ST # rest" outputBuffer] by auto
  also have "\<dots> = ((if outputBuffer @ buffer \<noteq> [] then [Output (outputBuffer @ buffer)] else [])
                     @ parseSequence body # e3, b3, o3)"
    using loop_sequence [of "[]" body rest "outputBuffer @ buffer"] assms(1) r by simp
  finally have "parse_loop (before @ OSC633_START @ body @ ST # rest) [] =
       (entries @ (if outputBuffer @ buffer \<noteq> [] then [Output (outputBuffer @ buffer)] else [])
                     @ parseSequence body # e3, b3, o3)"
    using loop_append [of before "OSC633_START @ body @ ST # rest" "[]"] assms(2) by simp
  then show ?thesis
    using assms(2) r by (simp add: finish_def)
qed

text \<open>
  C8 (amended). Let the input be \<open>prefixText\<close>, then the family prefix, a body without
  terminator byte, the terminator, then \<open>rest\<close>, where decoding the body fails and the scan
  of \<open>prefixText\<close> does not end inside an unterminated sequence (the buffer it leaves
  pending does not start with the full family prefix). Then \<open>parse\<close> yields the entries of
  \<open>prefixText\<close>, then the one \<open>Invalid\<close> entry of the body, then the entries of \<open>rest\<close>
  alone, however the input is cut into chunks.
\<close>

theorem malformed_resumes:
  assumes "is_Invalid (parseSequence body)"
    and "ST \<notin> set body"
    and "parse_loop prefixText [] = (entries, buffer, outputBuffer)"
    and "\<not> prefix OSC633_START buffer"
    and "concat stream = prefixText @ OSC633_START @ body @ [ST] @ rest"
  shows "parse stream = parse [prefixText] @ [parseSequence body] @ parse [rest]"
  using resume_after_sequence [OF assms(2,3,4), of rest] assms(5)
  by (simp add: parse_concat)

text \<open>
  Without the two side conditions the statement fails. After the unterminated sequence
  \<open>ESC ]633;A\<close> the terminator of the malformed sequence ends the earlier one, and the
  scanner decodes one body that holds both; and a body that holds a terminator byte is cut
  at that byte.
\<close>

theorem malformed_resumes_counterexample:
  "is_Invalid (parseSequence ''X'')
   \<and> parse [(OSC633_START @ ''A'') @ OSC633_START @ ''X'' @ [ST] @ []] =
       [Invalid (OSC633_START @ ''A'' @ OSC633_START @ ''X'' @ [ST]) (''A'' @ ESC # '']633'')
          [''A'' @ ESC # '']633'', ''X''] (''Unknown sequence type: A'' @ ESC # '']633'')]
   \<and> parse [OSC633_START @ ''A''] @ [parseSequence ''X''] @ parse [[]] =
       [Output (OSC633_START @ ''A''),
        Invalid (OSC633_START @ ''X'' @ [ST]) ''X'' [''X''] ''Unknown sequence type: X'']
   \<and> parse [(OSC633_START @ ''A'') @ OSC633_START @ ''X'' @ [ST] @ []] \<noteq>
       parse [OSC633_START @ ''A''] @ [parseSequence ''X''] @ parse [[]]
   \<and> is_Invalid (parseSequence (''X'' @ [ST] @ ''Y''))
   \<and> parse [[] @ OSC633_START @ (''X'' @ [ST] @ ''Y'') @ [ST] @ []] =
       [Invalid (OSC633_START @ ''X'' @ [ST]) ''X'' [''X''] ''Unknown sequence type: X'',
        Output (''Y'' @ [ST])]
   \<and> parse [[] @ OSC633_START @ (''X'' @ [ST] @ ''Y'') @ [ST] @ []] \<noteq>
       parse [[]] @ [parseSequence (''X'' @ [ST] @ ''Y'')] @ parse [[]]"
  by code_simp

text \<open>An instance: a prefix that ends in a partial family prefix, and three chunks.\<close>

theorem malformed_resumes_witness:
  "is_Invalid (parseSequence ''P;=v'')
   \<and> ST \<notin> set ''P;=v''
   \<and> parse_loop (''ab'' @ OSC633_START @ ''A'' @ [ST] @ ''c'' @ ESC # '']6'') [] =
        ([Output ''ab'', PromptStart], ESC # '']6'', ''c'')
   \<and> \<not> prefix OSC633_START (ESC # '']6'')
   \<and> parse [''ab'' @ OSC633_START @ ''A'' @ [ST], ''c'' @ ESC # '']6'' @ OSC633_START @ ''P;'',
             ''=v'' @ [ST] @ ''rest'' @ [ESC]] =
       parse [''ab'' @ OSC633_START @ ''A'' @ [ST] @ ''c'' @ ESC # '']6'']
       @ [parseSequence ''P;=v''] @ parse [''rest'' @ [ESC]]"
proof -
  have a: "is_Invalid (parseSequence ''P;=v'')"
    by code_simp
  have b: "ST \<notin> set ''P;=v''"
    by (simp add: ST_def)
  have c: "parse_loop (''ab'' @ OSC633_START @ ''A'' @ [ST] @ ''c'' @ ESC # '']6'') [] =
        ([Output ''ab'', PromptStart], ESC # '']6'', ''c'')"
    by code_simp
  have d: "\<not> prefix OSC633_START (ESC # '']6'')"
    by (simp add: OSC633_START_def)
  have e: "concat [''ab'' @ OSC633_START @ ''A'' @ [ST], ''c'' @ ESC # '']6'' @ OSC633_START @ ''P;'',
             ''=v'' @ [ST] @ ''rest'' @ [ESC]] =
        (''ab'' @ OSC633_START @ ''A'' @ [ST] @ ''c'' @ ESC # '']6'') @ OSC633_START @ ''P;=v''
          @ [ST] @ (''rest'' @ [ESC])"
    by simp
  show ?thesis
    using a b c d malformed_resumes [OF a b c d e] by simp
qed

section \<open>Round trip\<close>

lemma scan_loop_text: "ESC \<notin> set b \<Longrightarrow> scan_loop b out = ([], [], out @ b)"
  using indexOf_None [of b ESC] by (cases "b = []") (simp_all add: scan_loop.simps)

lemma scan_loop_partial:
  assumes "ESC \<notin> set p" "\<not> prefix OSC633_START (ESC # t)" "prefix (ESC # t) OSC633_START"
  shows "scan_loop (p @ ESC # t) out = ([], ESC # t, out @ p)"
  using assms indexOf_append [of ESC p t]
  by (subst scan_loop.simps) (simp add: startsWith_prefix isPartial_prefix slice_0 Let_def)

lemma scan_loop_stray:
  assumes "ESC \<notin> set p" "\<not> prefix OSC633_START (ESC # t)" "\<not> prefix (ESC # t) OSC633_START"
  shows "scan_loop (p @ ESC # t) out = scan_loop t (out @ p @ [ESC])"
  using assms indexOf_append [of ESC p t]
  by (subst scan_loop.simps) (simp add: startsWith_prefix isPartial_prefix slice_0 Let_def)

lemma scan_loop_open:
  assumes "ESC \<notin> set p" "ST \<notin> set body"
  shows "scan_loop (p @ OSC633_START @ body) out = ([], OSC633_START @ body, out @ p)"
proof -
  have i: "indexOf (p @ OSC633_START @ body) ESC = Some (length p)"
    using indexOf_append [of ESC p "'']633;'' @ body"] assms by (simp add: hd_OSC)
  have n: "indexOf_from (p @ OSC633_START @ body) ST (length p) = None"
    using assms by (simp add: indexOf_from_None)
  have s: "startsWith (drop (length p) (p @ OSC633_START @ body)) OSC633_START"
    by (simp add: startsWith_prefix)
  show ?thesis
    apply (subst scan_loop.simps)
    apply (simp only: i n s option.case Let_def)
    apply (simp add: slice_0)
    done
qed

lemma scan_loop_sequence:
  assumes "ESC \<notin> set p" "ST \<notin> set body"
  shows "scan_loop (p @ OSC633_START @ body @ ST # rest) out =
           (case scan_loop rest [] of
              (tokens, buffer', outputBuffer') \<Rightarrow>
                ((if out @ p \<noteq> [] then [Text (out @ p)] else []) @
                   Sequence body # tokens, buffer', outputBuffer'))"
proof -
  let ?b = "p @ OSC633_START @ body @ ST # rest"
  have i: "indexOf ?b ESC = Some (length p)"
    using indexOf_append [of ESC p "'']633;'' @ body @ ST # rest"] assms by (simp add: hd_OSC)
  have n: "indexOf_from ?b ST (length p) = Some (length p + (6 + length body))"
    using indexOf_from_append [of ST "OSC633_START @ body" p rest] assms by simp
  have s: "startsWith (drop (length p) ?b) OSC633_START"
    by (simp add: startsWith_prefix)
  have q: "slice ?b (length p + length OSC633_START) (length p + (6 + length body)) = body"
    by (simp add: slice_def)
  have d: "drop (length p + (6 + length body) + 1) ?b = rest"
    by simp
  have o: "(if 0 < length p then out @ slice ?b 0 (length p) else out) = out @ p"
    by (simp add: slice_0)
  show ?thesis
    apply (subst scan_loop.simps)
    apply (simp only: i n s q d o option.case Let_def)
    apply (simp split: prod.splits)
    done
qed

lemma parse_loop_scan_loop:
  "parse_loop b out =
     (case scan_loop b out of (tokens, b', o') \<Rightarrow> (map entry_of tokens, b', o'))"
proof (induction b arbitrary: out rule: length_induct)
  case (1 b)
  show ?case
  proof (cases b rule: buffer_cases)
    case plain
    then show ?thesis by (simp add: loop_text scan_loop_text)
  next
    case (partial p t)
    then show ?thesis by (simp add: loop_partial scan_loop_partial)
  next
    case (stray p t)
    then have "length t < length b"
      by simp
    then show ?thesis
      using 1 stray by (simp add: loop_stray scan_loop_stray)
  next
    case (pending p body)
    then show ?thesis by (simp add: loop_open scan_loop_open)
  next
    case (sequence p body rest)
    then have "length rest < length b"
      by simp
    then have "parse_loop rest [] =
      (case scan_loop rest [] of (tokens, b', o') \<Rightarrow> (map entry_of tokens, b', o'))"
      using 1 by blast
    then show ?thesis
      using sequence
      by (simp add: loop_sequence scan_loop_sequence createOutput_def split: prod.splits)
  qed
qed

lemma parse_chunks_scan_chunks:
  "parse_chunks stream b out =
     (case scan_chunks stream b out of (tokens, b', o') \<Rightarrow> (map entry_of tokens, b', o'))"
  by (induction stream arbitrary: b out) (simp_all add: parse_loop_scan_loop split: prod.splits)

lemma parse_scan: "parse stream = map entry_of (scan stream)"
  by (simp add: parse_def scan_def parse_chunks_scan_chunks split: prod.splits)

lemma parseSequence_Invalid:
  "parseSequence body = Invalid s t p m \<Longrightarrow> s = OSC633_START @ body @ [ST]"
  using join_split [of "CHR '';''" body]
  by (auto simp: parseSequence_def parseCommandEnd_def parseCommandLine_def
        parsePropertyUpdate_def new_Invalid_def Let_def split: option.splits if_splits)

lemma wire_text_Text: "wire_text (Text v) = v"
  by (simp add: wire_text_def createOutput_def)

lemma wire_text_Sequence: "wire_text (Sequence body) = OSC633_START @ body @ [ST]"
  using parseSequence_not_Output [of body] parseSequence_Invalid [of body]
        join_split [of "CHR '';''" body]
  by (cases "parseSequence body") (simp_all add: wire_text_def)

lemma scan_loop_text_kept:
  "scan_loop b out = (tokens, b', o') \<Longrightarrow> concat (map wire_text tokens) @ o' @ b' = out @ b"
proof (induction b arbitrary: out tokens rule: length_induct)
  case (1 b)
  show ?case
  proof (cases b rule: buffer_cases)
    case plain
    then show ?thesis using 1(2) by (simp add: scan_loop_text)
  next
    case (partial p t)
    then show ?thesis using 1(2) by (auto simp: scan_loop_partial)
  next
    case (stray p t)
    then have "length t < length b" "scan_loop t (out @ p @ [ESC]) = (tokens, b', o')"
      using 1(2) by (simp_all add: scan_loop_stray)
    then have "concat (map wire_text tokens) @ o' @ b' = (out @ p @ [ESC]) @ t"
      using 1(1) by blast
    then show ?thesis
      using stray by simp
  next
    case (pending p body)
    then show ?thesis using 1(2) by (auto simp: scan_loop_open)
  next
    case (sequence p body rest)
    obtain ts where ts: "scan_loop rest [] = (ts, b', o')"
        "tokens = (if out @ p \<noteq> [] then [Text (out @ p)] else []) @ Sequence body # ts"
      using 1(2) sequence by (auto simp: scan_loop_sequence split: prod.splits)
    have "length rest < length b"
      using sequence by simp
    then have "concat (map wire_text ts) @ o' @ b' = [] @ rest"
      using 1(1) ts(1) by blast
    then show ?thesis
      using sequence ts(2) by (simp add: wire_text_Text wire_text_Sequence)
  qed
qed

lemma scan_chunks_text_kept:
  "scan_chunks stream b out = (tokens, b', o') \<Longrightarrow>
     concat (map wire_text tokens) @ o' @ b' = out @ b @ concat stream"
proof (induction stream arbitrary: b out tokens)
  case Nil
  then show ?case by simp
next
  case (Cons c stream)
  obtain t1 b1 o1 where l: "scan_loop (b @ c) out = (t1, b1, o1)"
    by (cases "scan_loop (b @ c) out") auto
  obtain t2 where r: "scan_chunks stream b1 o1 = (t2, b', o')" "tokens = t1 @ t2"
    using Cons(2) l by (auto split: prod.splits)
  have "concat (map wire_text t2) @ o' @ b' = o1 @ b1 @ concat stream"
    using Cons(1) r(1) by blast
  moreover have "concat (map wire_text t1) @ o1 @ b1 = out @ b @ c"
    using scan_loop_text_kept [OF l] by simp
  ultimately show ?case
    using r(2) by simp
qed

lemma scan_round_trip: "concat (map wire_text (scan stream)) = concat stream"
proof -
  obtain ts b out where r: "scan_chunks stream [] [] = (ts, b, out)"
    by (cases "scan_chunks stream [] []") auto
  then show ?thesis
    using scan_chunks_text_kept [OF r] by (auto simp: scan_def wire_text_Text)
qed

text \<open>
  C1 (amended). The entries of \<open>parse\<close> are, one for one, the entries of the pieces that
  the scanner cuts out of the input, and the wire texts of these pieces, concatenated in
  order, are the concatenation of the chunks. The wire text of a well-formed sequence is
  rebuilt from its raw fields.
\<close>

theorem round_trip:
  "parse stream = map entry_of (scan stream)
   \<and> concat (map wire_text (scan stream)) = concat stream"
  by (simp add: parse_scan scan_round_trip)

text \<open>
  Rebuilt from the entries alone, the text is not the input: fields that the decoder
  ignores are not part of the entry, and an unescaped value is not the text on the wire.
  Two different inputs can yield the same entries.
\<close>

theorem round_trip_counterexample:
  "parse [OSC633_START @ ''A;x'' @ [ST]] = [PromptStart]
   \<and> parse [OSC633_START @ ''A'' @ [ST]] = [PromptStart]
   \<and> concat (map reconstructed (parse [OSC633_START @ ''A;x'' @ [ST]])) = OSC633_START @ ''A'' @ [ST]
   \<and> concat (map reconstructed (parse [OSC633_START @ ''A;x'' @ [ST]])) \<noteq>
       concat [OSC633_START @ ''A;x'' @ [ST]]
   \<and> parse [OSC633_START @ ''E;a'' @ backslash # ''x3bb'' @ [ST]] = [CommandLine ''a;b'' None]
   \<and> concat (map reconstructed (parse [OSC633_START @ ''E;a'' @ backslash # ''x3bb'' @ [ST]])) \<noteq>
       concat [OSC633_START @ ''E;a'' @ backslash # ''x3bb'' @ [ST]]"
  by code_simp

theorem round_trip_witness:
  "parse [''ab'' @ [ESC], '']633;A;x'' @ [ST] @ OSC633_START @ ''Q'', [ST] @ ''c''] =
     [Output ''ab'', PromptStart,
      Invalid (OSC633_START @ ''Q'' @ [ST]) ''Q'' [''Q''] ''Unknown sequence type: Q'',
      Output ''c'']
   \<and> scan [''ab'' @ [ESC], '']633;A;x'' @ [ST] @ OSC633_START @ ''Q'', [ST] @ ''c''] =
     [Text ''ab'', Sequence ''A;x'', Sequence ''Q'', Text ''c'']
   \<and> map wire_text (scan [''ab'' @ [ESC], '']633;A;x'' @ [ST] @ OSC633_START @ ''Q'', [ST] @ ''c'']) =
     [''ab'', OSC633_START @ ''A;x'' @ [ST], OSC633_START @ ''Q'' @ [ST], ''c'']"
proof -
  have s: "scan [''ab'' @ [ESC], '']633;A;x'' @ [ST] @ OSC633_START @ ''Q'', [ST] @ ''c''] =
     [Text ''ab'', Sequence ''A;x'', Sequence ''Q'', Text ''c'']"
    by code_simp
  have e: "map entry_of [Text ''ab'', Sequence ''A;x'', Sequence ''Q'', Text ''c''] =
     [Output ''ab'', PromptStart,
      Invalid (OSC633_START @ ''Q'' @ [ST]) ''Q'' [''Q''] ''Unknown sequence type: Q'',
      Output ''c'']"
    by code_simp
  have w: "map wire_text [Text ''ab'', Sequence ''A;x'', Sequence ''Q'', Text ''c''] =
     [''ab'', OSC633_START @ ''A;x'' @ [ST], OSC633_START @ ''Q'' @ [ST], ''c'']"
    by code_simp
  show ?thesis
    using round_trip [of "[''ab'' @ [ESC], '']633;A;x'' @ [ST] @ OSC633_START @ ''Q'', [ST] @ ''c'']"]
    unfolding s e w by simp
qed

section \<open>Unescaping\<close>

lemma replaceAll_keeps_prefix:
  "lit \<noteq> [] \<Longrightarrow> hd lit \<notin> set w \<Longrightarrow> q \<notin> set w \<Longrightarrow>
     prefix w (replaceAll lit [q] t) \<longleftrightarrow> prefix w t"
proof (induction w arbitrary: t)
  case Nil
  then show ?case by simp
next
  case (Cons a w)
  show ?case
  proof (cases t)
    case Nil
    then show ?thesis by simp
  next
    case (Cons c cs)
    show ?thesis
    proof (cases "prefix lit (c # cs)")
      case True
      then have "c = hd lit"
        using Cons.prems(1) by (cases lit) auto
      then show ?thesis
        using True Cons Cons.prems by auto
    next
      case False
      then show ?thesis
        using Cons Cons.prems Cons.IH [of cs] by auto
    qed
  qed
qed

lemma replaceAll_no_match:
  "\<not> prefix lit (c # cs) \<Longrightarrow> replaceAll lit rep (c # cs) = c # replaceAll lit rep cs"
  by simp

lemma replaceAll_head:
  "lit \<noteq> [] \<Longrightarrow> q \<noteq> a \<Longrightarrow> prefix [a] (replaceAll lit [q] t) \<Longrightarrow> prefix [a] t"
  by (cases t) (auto split: if_splits)

lemma backslash_distinct:
  "backslash \<noteq> CHR ''x''" "backslash \<noteq> CHR ''3''" "backslash \<noteq> CHR ''b''"
  "backslash \<noteq> CHR ''0''" "backslash \<noteq> CHR ''a''" "backslash \<noteq> CHR '';''"
  "backslash \<noteq> newline"
  "CHR ''x'' \<noteq> backslash" "CHR ''3'' \<noteq> backslash" "CHR ''b'' \<noteq> backslash"
  "CHR ''0'' \<noteq> backslash" "CHR ''a'' \<noteq> backslash" "CHR '';'' \<noteq> backslash"
  "newline \<noteq> backslash"
  by (simp_all add: backslash_def newline_def)

lemma unescape_semicolon:
  "unescapeValue (backslash # ''x3b'' @ rest) = CHR '';'' # unescapeValue rest"
  by (simp add: unescapeValue_def backslash_distinct)

lemma unescape_newline:
  "unescapeValue (backslash # ''x0a'' @ rest) = newline # unescapeValue rest"
  by (simp add: unescapeValue_def backslash_distinct)

lemma unescape_backslash:
  assumes "\<not> prefix ''x3b'' rest" "\<not> prefix ''x0a'' rest"
  shows "unescapeValue (backslash # backslash # rest) = backslash # unescapeValue rest"
proof -
  let ?r1 = "replaceAll (backslash # ''x3b'') '';'' rest"
  let ?r2 = "replaceAll (backslash # ''x0a'') [newline] ?r1"
  have a: "\<not> prefix ''x0a'' ?r1"
    using assms(2) replaceAll_keeps_prefix [of "backslash # ''x3b''" "''x0a''" "CHR '';''" rest]
    by (simp add: backslash_distinct)
  have 1: "replaceAll (backslash # ''x3b'') '';'' (backslash # backslash # rest) =
           backslash # backslash # ?r1"
    using assms(1) by (simp add: backslash_distinct)
  have 2: "replaceAll (backslash # ''x0a'') [newline] (backslash # backslash # ?r1) =
           backslash # backslash # ?r2"
    using a by (simp add: backslash_distinct)
  have 3: "replaceAll [backslash, backslash] [backslash] (backslash # backslash # ?r2) =
           backslash # replaceAll [backslash, backslash] [backslash] ?r2"
    by simp
  show ?thesis
    by (simp only: unescapeValue_def 1 2 3)
qed

lemma unescape_other:
  assumes "\<not> prefix (backslash # ''x3b'') (c # cs)" "\<not> prefix (backslash # ''x0a'') (c # cs)"
    "\<not> prefix [backslash, backslash] (c # cs)"
  shows "unescapeValue (c # cs) = c # unescapeValue cs"
proof -
  let ?r1 = "replaceAll (backslash # ''x3b'') '';'' cs"
  let ?r2 = "replaceAll (backslash # ''x0a'') [newline] ?r1"
  have a: "prefix ''x0a'' ?r1 \<longleftrightarrow> prefix ''x0a'' cs"
    using replaceAll_keeps_prefix [of "backslash # ''x3b''" "''x0a''" "CHR '';''" cs]
    by (simp add: backslash_distinct)
  have "prefix [backslash] ?r2 \<Longrightarrow> prefix [backslash] cs"
    using replaceAll_head [of "backslash # ''x0a''" newline backslash ?r1]
          replaceAll_head [of "backslash # ''x3b''" "CHR '';''" backslash cs]
    by (simp add: backslash_distinct)
  then have b: "\<not> prefix [backslash, backslash] (c # ?r2)"
    using assms(3) by auto
  have 1: "replaceAll (backslash # ''x3b'') '';'' (c # cs) = c # ?r1"
    using assms(1) by (rule replaceAll_no_match)
  have "\<not> prefix (backslash # ''x0a'') (c # ?r1)"
    using assms(2) a by simp
  then have 2: "replaceAll (backslash # ''x0a'') [newline] (c # ?r1) = c # ?r2"
    by (rule replaceAll_no_match)
  have 3: "replaceAll [backslash, backslash] [backslash] (c # ?r2) =
           c # replaceAll [backslash, backslash] [backslash] ?r2"
    using b by (rule replaceAll_no_match)
  show ?thesis
    by (simp only: unescapeValue_def 1 2 3)
qed

lemma unescape_agrees:
  "no_clash v \<Longrightarrow> unescapeValue v = unescape_independent v"
proof (induction v rule: unescape_independent.induct)
  case 1
  then show ?case by (simp add: unescapeValue_def)
next
  case (2 c cs)
  show ?case
  proof (cases "prefix (backslash # ''x3b'') (c # cs)")
    case True
    then obtain rest where r: "c # cs = backslash # ''x3b'' @ rest"
      by (auto simp: prefix_def)
    then have d: "drop 4 (c # cs) = rest"
      by simp
    have "no_clash (c # cs) = no_clash rest"
      using True by (simp only: no_clash.simps if_True d)
    then have "no_clash rest"
      using 2(5) by blast
    then have "unescapeValue rest = unescape_independent rest"
      using 2(1) True d by simp
    moreover have "unescape_independent (c # cs) = CHR '';'' # unescape_independent rest"
      using True by (simp only: unescape_independent.simps if_True d)
    ultimately show ?thesis
      using unescape_semicolon [of rest] r by simp
  next
    case sc: False
    show ?thesis
    proof (cases "prefix (backslash # ''x0a'') (c # cs)")
      case True
      then obtain rest where r: "c # cs = backslash # ''x0a'' @ rest"
        by (auto simp: prefix_def)
      then have d: "drop 4 (c # cs) = rest"
        by simp
      have "no_clash (c # cs) = no_clash rest"
        using sc True by (simp only: no_clash.simps if_True if_False d)
      then have "no_clash rest"
        using 2(5) by blast
      then have "unescapeValue rest = unescape_independent rest"
        using 2(2) sc True d by simp
      moreover have "unescape_independent (c # cs) = newline # unescape_independent rest"
        using sc True by (simp only: unescape_independent.simps if_True if_False d)
      ultimately show ?thesis
        using unescape_newline [of rest] r by simp
    next
      case nl: False
      show ?thesis
      proof (cases "prefix [backslash, backslash] (c # cs)")
        case True
        then obtain rest where r: "c # cs = backslash # backslash # rest"
          by (auto simp: prefix_def)
        then have d: "drop 2 (c # cs) = rest"
          by simp
        have "no_clash (c # cs) =
                (\<not> prefix ''x3b'' rest \<and> \<not> prefix ''x0a'' rest \<and> no_clash rest)"
          using sc nl True by (simp only: no_clash.simps if_True if_False d)
        then have n: "\<not> prefix ''x3b'' rest \<and> \<not> prefix ''x0a'' rest \<and> no_clash rest"
          using 2(5) by blast
        then have "unescapeValue rest = unescape_independent rest"
          using 2(3) sc nl True d by simp
        moreover have "unescape_independent (c # cs) = backslash # unescape_independent rest"
          using sc nl True by (simp only: unescape_independent.simps if_True if_False d)
        ultimately show ?thesis
          using unescape_backslash [of rest] r n by simp
      next
        case False
        have "no_clash (c # cs) = no_clash cs"
          using sc nl False by (simp only: no_clash.simps if_False)
        then have "no_clash cs"
          using 2(5) by blast
        then have "unescapeValue cs = unescape_independent cs"
          using 2(4) sc nl False by simp
        moreover have "unescape_independent (c # cs) = c # unescape_independent cs"
          using sc nl False by (simp only: unescape_independent.simps if_False)
        ultimately show ?thesis
          using unescape_other [OF sc nl False] by simp
      qed
    qed
  qed
qed

text \<open>
  So the three chained substitutions and the decoding on the original text agree on every
  value in which no doubled backslash is directly followed by \<open>x3b\<close> or \<open>x0a\<close>. The
  decoding on the original text gives back every value from its escaped form.
\<close>

lemma unescape_independent_escape: "unescape_independent (escape v) = v"
  by (induction v) (simp_all add: backslash_distinct)

text \<open>
  C3. \<open>unescapeValue\<close> chains the three substitutions: each runs on the result of the
  one before, not on the original text. The escaped form of a backslash followed by
  \<open>x3b\<close> is a doubled backslash followed by \<open>x3b\<close>; decoded on the original text it
  gives the value back, but \<open>unescapeValue\<close> takes the second backslash for the start of a
  semicolon marker and returns a backslash and a semicolon. The same happens with \<open>x0a\<close>,
  and the wrong value reaches the \<open>E\<close> and \<open>P\<close> entries of \<open>parse\<close>.
\<close>

theorem unescape_escaped_backslash:
  "escape (backslash # ''x3b'') = backslash # backslash # ''x3b''
   \<and> unescape_independent (backslash # backslash # ''x3b'') = backslash # ''x3b''
   \<and> unescapeValue (backslash # backslash # ''x3b'') = [backslash, CHR '';'']
   \<and> escape (backslash # ''x0a'') = backslash # backslash # ''x0a''
   \<and> unescape_independent (backslash # backslash # ''x0a'') = backslash # ''x0a''
   \<and> unescapeValue (backslash # backslash # ''x0a'') = [backslash, newline]
   \<and> parse [OSC633_START @ ''E;'' @ backslash # backslash # ''x3b'' @ [ST]] =
       [CommandLine [backslash, CHR '';''] None]
   \<and> parse [OSC633_START @ ''P;k='' @ backslash # backslash # ''x3b'' @ [ST]] =
       [PropertyUpdate ''k'' [backslash, CHR '';'']]"
  by code_simp

section \<open>Empty fields\<close>

text \<open>
  C10. An empty field is a present field: the framed sequence with body \<open>E;\<close> yields a
  command line with the empty command and no nonce, the one with body \<open>D;\<close> a command end
  whose exit code is the empty string, and the one with body \<open>P;\<close> is reported as a
  property without \<open>=\<close>, not as a missing parameter.
\<close>

theorem empty_field_is_present:
  "parse [OSC633_START @ ''E;'' @ [ST]] = [CommandLine [] None]
   \<and> parse [OSC633_START @ ''D;'' @ [ST]] = [CommandEnd (Some [])]
   \<and> parse [OSC633_START @ ''P;'' @ [ST]] =
       [Invalid (OSC633_START @ ''P;'' @ [ST]) ''P'' [''P'', []]
          (''Invalid property format: missing '' @ [CHR 0x27, CHR ''='', CHR 0x27])]"
  by code_simp

end
